theory Spec2Isabelle
  imports Main "HOL-Library.AList" "HOL-Library.Code_Target_Nat"
begin

section \<open>Values, errors and observable events\<close>

text \<open>
  The engine of \<^verbatim>\<open>scratchpad/ant-agentx.ts\<close> passes values of type \<^verbatim>\<open>any\<close> between
  the phases of a node. They are modelled by a small universe of JavaScript values:
  \<^verbatim>\<open>undefined\<close>, \<^verbatim>\<open>null\<close>, booleans, strings of ASCII characters, arrays, and plain objects
  (objects whose prototype is \<^verbatim>\<open>Object.prototype\<close>, holding data properties). An object is
  the list of its own properties in property order, with distinct keys. Numbers and
  functions as values are outside the model.
\<close>

datatype val =
    VUndefined
  | VNull
  | VBool bool
  | VStr string
  | VArr "val list"
  | VObj "(string \<times> val) list"

text \<open>
  What a \<^verbatim>\<open>throw\<close> carries: an \<^verbatim>\<open>Error\<close>, a \<^verbatim>\<open>TypeError\<close>, the \<^verbatim>\<open>DataCloneError\<close> of
  \<^verbatim>\<open>structuredClone\<close>, or any other value.
\<close>

datatype exn = Error string | TypeError string | DataCloneError string | Thrown val

text \<open>\<^verbatim>\<open>Params = Record<string, any>\<close>: an object, read by key.\<close>

type_synonym params = "(string \<times> val) list"

text \<open>The three \<^verbatim>\<open>console.warn\<close> messages of the engine, with the values they interpolate.\<close>

datatype warning =
    Overwriting string
  | WontRunSuccessors
  | FlowEnds val "string list"

text \<open>
  The log is an observation of a run: every call of a phase the engine makes, every
  busy wait, every warning, and every node run an orchestrator starts (the index of the
  node in its object graph and the parameters the node holds at that moment).
\<close>

datatype event =
    EvPrep
  | EvExec val
  | EvFallback val exn
  | EvPost val val
  | EvWait int
  | EvWarn warning
  | EvRun nat params

text \<open>
  User code lives in the overridable methods \<^verbatim>\<open>prep\<close>, \<^verbatim>\<open>exec\<close>, \<^verbatim>\<open>execFallback\<close> and
  \<^verbatim>\<open>post\<close>. Everything mutable these can reach (the shared context, captured variables)
  is the world \<open>'w\<close>; a phase reads \<^verbatim>\<open>this.params\<close>, takes its arguments and the world,
  and returns a value or throws, together with the new world.
\<close>

record 'w phases =
  prep :: "params \<Rightarrow> 'w \<Rightarrow> (exn + val) \<times> 'w"
  exec :: "params \<Rightarrow> val \<Rightarrow> 'w \<Rightarrow> (exn + val) \<times> 'w"
  execFallback :: "params \<Rightarrow> val \<Rightarrow> exn \<Rightarrow> 'w \<Rightarrow> (exn + val) \<times> 'w"
  post :: "params \<Rightarrow> val \<Rightarrow> val \<Rightarrow> 'w \<Rightarrow> (exn + val) \<times> 'w"

text \<open>The defaults of \<^verbatim>\<open>BaseNode\<close> return \<^verbatim>\<open>null\<close>; the default fallback rethrows.\<close>

definition default_phases :: "'w phases" where
  "default_phases =
     \<lparr> prep = (\<lambda>ps w. (Inr VNull, w)),
       exec = (\<lambda>ps p w. (Inr VNull, w)),
       execFallback = (\<lambda>ps p exc w. (Inl exc, w)),
       post = (\<lambda>ps p e w. (Inr VNull, w)) \<rparr>"

record 'w env =
  world :: 'w
  log :: "event list"

section \<open>Objects and coercions\<close>

text \<open>\<^verbatim>\<open>action || "default"\<close> and \<^verbatim>\<open>items || []\<close> test truthiness.\<close>

fun truthy :: "val \<Rightarrow> bool" where
  "truthy VUndefined = False"
| "truthy VNull = False"
| "truthy (VBool b) = b"
| "truthy (VStr s) = (s \<noteq> [])"
| "truthy (VArr xs) = True"
| "truthy (VObj kvs) = True"

definition digit :: "nat \<Rightarrow> char" where
  "digit d = ''0123456789'' ! d"

text \<open>The decimal form of an array index.\<close>

function show_nat :: "nat \<Rightarrow> string" where
  "show_nat n = (if n < 10 then [digit n] else show_nat (n div 10) @ [digit (n mod 10)])"
  by pat_completeness auto
termination
  by (relation "measure id") auto

fun join_comma :: "string list \<Rightarrow> string" where
  "join_comma [] = []"
| "join_comma [x] = x"
| "join_comma (x # y # ys) = x @ '','' @ join_comma (y # ys)"

text \<open>The results of a sequence of conversions, up to the first that throws.\<close>

fun first_error :: "(exn + 'a) list \<Rightarrow> exn + 'a list" where
  "first_error [] = Inr []"
| "first_error (Inl e # rs) = Inl e"
| "first_error (Inr x # rs) = (case first_error rs of Inl e \<Rightarrow> Inl e | Inr xs \<Rightarrow> Inr (x # xs))"

text \<open>
  The conversion of a value to a string, which indexing an object with the value performs.
  An array joins its elements with commas, \<^verbatim>\<open>null\<close> and \<^verbatim>\<open>undefined\<close> elements as the empty
  string. A plain object is converted by the \<^verbatim>\<open>toString\<close> it inherits; when it has an own
  property of that name, which is data and cannot be called, neither that nor \<^verbatim>\<open>valueOf\<close>
  yields a primitive and the conversion throws.
\<close>

fun toString :: "val \<Rightarrow> exn + string" where
  "toString VUndefined = Inr ''undefined''"
| "toString VNull = Inr ''null''"
| "toString (VBool b) = Inr (if b then ''true'' else ''false'')"
| "toString (VStr s) = Inr s"
| "toString (VArr xs) =
     (case first_error (map (\<lambda>x. if x = VNull \<or> x = VUndefined then Inr [] else toString x) xs) of
        Inl e \<Rightarrow> Inl e
      | Inr ss \<Rightarrow> Inr (join_comma ss))"
| "toString (VObj kvs) =
     (if map_of kvs ''toString'' = None then Inr ''[object Object]''
      else Inl (TypeError ''Cannot convert object to primitive value''))"

text \<open>
  Property order: the keys that are array indices (canonical decimal numbers up to
  \<open>2\<^sup>3\<^sup>2 - 2\<close>) come first, in ascending order, then the other keys in the order they
  were created. \<open>obj_set\<close> defines a property: an existing key keeps its place.
\<close>

definition digit_value :: "char \<Rightarrow> nat option" where
  "digit_value = map_of (zip ''0123456789'' [0..<10])"

definition array_index :: "string \<Rightarrow> nat option" where
  "array_index s =
     (if s \<noteq> [] \<and> list_all (\<lambda>c. digit_value c \<noteq> None) s \<and> (s = ''0'' \<or> hd s \<noteq> CHR ''0'')
      then (let v = foldl (\<lambda>acc c. 10 * acc + the (digit_value c)) 0 s
            in if v \<le> 4294967294 then Some v else None)
      else None)"

fun ins_index :: "nat \<Rightarrow> string \<times> 'a \<Rightarrow> (string \<times> 'a) list \<Rightarrow> (string \<times> 'a) list" where
  "ins_index i e [] = [e]"
| "ins_index i e (x # xs) =
     (case array_index (fst x) of
        Some j \<Rightarrow> if j < i then x # ins_index i e xs else e # x # xs
      | None \<Rightarrow> e # x # xs)"

definition obj_set :: "string \<Rightarrow> 'a \<Rightarrow> (string \<times> 'a) list \<Rightarrow> (string \<times> 'a) list" where
  "obj_set k v kvs =
     (if map_of kvs k \<noteq> None then AList.update k v kvs
      else case array_index k of
             Some i \<Rightarrow> ins_index i (k, v) kvs
           | None \<Rightarrow> kvs @ [(k, v)])"

text \<open>The own enumerable properties an object spread \<^verbatim>\<open>{...v}\<close> copies.\<close>

fun spread :: "val \<Rightarrow> params" where
  "spread (VObj kvs) = kvs"
| "spread (VArr xs) = zip (map show_nat [0..<length xs]) xs"
| "spread (VStr s) = zip (map show_nat [0..<length s]) (map (\<lambda>c. VStr [c]) s)"
| "spread v = []"

text \<open>\<^verbatim>\<open>{ ...a, ...b }\<close>: the properties of \<open>a\<close>, then those of \<open>b\<close> defined over them.\<close>

definition spread2 :: "params \<Rightarrow> params \<Rightarrow> params" where
  "spread2 a b = foldl (\<lambda>acc kv. obj_set (fst kv) (snd kv) acc) a b"

text \<open>
  Reading a property of a successor table, \<^verbatim>\<open>successors[key]\<close>: an own property is a node;
  otherwise the names of \<^verbatim>\<open>Object.prototype\<close> yield the inherited member, which is truthy
  and no node, and every other name yields \<^verbatim>\<open>undefined\<close>.
\<close>

definition object_prototype_names :: "string list" where
  "object_prototype_names =
     [''constructor'', ''__defineGetter__'', ''__defineSetter__'', ''hasOwnProperty'',
      ''__lookupGetter__'', ''__lookupSetter__'', ''isPrototypeOf'', ''propertyIsEnumerable'',
      ''toString'', ''valueOf'', ''__proto__'', ''toLocaleString'']"

datatype looked_up = Missing | Successor nat | Inherited string

definition get_successor :: "(string \<times> nat) list \<Rightarrow> string \<Rightarrow> looked_up" where
  "get_successor tbl key =
     (case map_of tbl key of
        Some j \<Rightarrow> Successor j
      | None \<Rightarrow> if key \<in> set object_prototype_names then Inherited key else Missing)"

section \<open>Nodes\<close>

text \<open>
  The class of an object decides which methods it has: \<^verbatim>\<open>BaseNode\<close> runs \<^verbatim>\<open>exec\<close> once,
  \<^verbatim>\<open>Node\<close> overrides \<^verbatim>\<open>_exec\<close> with the retry loop, and a plain object (\<open>PlainK\<close>) has the
  data fields and none of the methods of a node. A successor table maps an action to the
  index of a node in the same object graph. \<^verbatim>\<open>maxRetries\<close> and \<^verbatim>\<open>wait\<close> are integers.
\<close>

datatype kind = BaseNodeK | NodeK | PlainK

record 'w node =
  params :: params
  successors :: "(string \<times> nat) list"
  kind :: kind
  methods :: "'w phases"
  maxRetries :: int
  wait :: int
  curRetry :: int

text \<open>\<^verbatim>\<open>new BaseNode()\<close> and \<^verbatim>\<open>new Node(maxRetries = 1, wait = 0)\<close>, for a class with the given methods.\<close>

definition BaseNode_new :: "'w phases \<Rightarrow> 'w node" where
  "BaseNode_new ph =
     \<lparr> params = [], successors = [], kind = BaseNodeK, methods = ph,
       maxRetries = 1, wait = 0, curRetry = 0 \<rparr>"

definition Node_new :: "'w phases \<Rightarrow> int option \<Rightarrow> int option \<Rightarrow> exn + 'w node" where
  "Node_new ph mr wt =
     Inr \<lparr> params = [], successors = [], kind = NodeK, methods = ph,
           maxRetries = (case mr of None \<Rightarrow> 1 | Some m \<Rightarrow> m),
           wait = (case wt of None \<Rightarrow> 0 | Some t \<Rightarrow> t),
           curRetry = 0 \<rparr>"

definition setParams :: "'w node \<Rightarrow> params \<Rightarrow> 'w node" where
  "setParams n ps = n\<lparr>params := ps\<rparr>"

definition warn :: "warning \<Rightarrow> 'w env \<Rightarrow> 'w env" where
  "warn m s = s\<lparr>log := log s @ [EvWarn m]\<rparr>"

text \<open>
  \<^verbatim>\<open>addSuccessor(node, action = "default")\<close>: warns when \<^verbatim>\<open>this.successors[action]\<close> is
  truthy, then stores the node under the key and returns it.
\<close>

definition addSuccessor ::
  "'w node \<Rightarrow> nat \<Rightarrow> string option \<Rightarrow> 'w env \<Rightarrow> nat \<times> 'w node \<times> 'w env" where
  "addSuccessor n tgt act s =
     (let action = (case act of None \<Rightarrow> ''default'' | Some a \<Rightarrow> a);
          s' = (if get_successor (successors n) action \<noteq> Missing
                then warn (Overwriting action) s else s)
      in (tgt, n\<lparr>successors := obj_set action tgt (successors n)\<rparr>, s'))"

subsection \<open>Calling the phases\<close>

definition call_prep :: "'w node \<Rightarrow> 'w env \<Rightarrow> (exn + val) \<times> 'w env" where
  "call_prep n s =
     (case prep (methods n) (params n) (world s) of
        (r, w') \<Rightarrow> (r, s\<lparr>world := w', log := log s @ [EvPrep]\<rparr>))"

definition call_exec :: "'w node \<Rightarrow> val \<Rightarrow> 'w env \<Rightarrow> (exn + val) \<times> 'w env" where
  "call_exec n p s =
     (case exec (methods n) (params n) p (world s) of
        (r, w') \<Rightarrow> (r, s\<lparr>world := w', log := log s @ [EvExec p]\<rparr>))"

definition call_execFallback :: "'w node \<Rightarrow> val \<Rightarrow> exn \<Rightarrow> 'w env \<Rightarrow> (exn + val) \<times> 'w env" where
  "call_execFallback n p exc s =
     (case execFallback (methods n) (params n) p exc (world s) of
        (r, w') \<Rightarrow> (r, s\<lparr>world := w', log := log s @ [EvFallback p exc]\<rparr>))"

definition call_post :: "'w node \<Rightarrow> val \<Rightarrow> val \<Rightarrow> 'w env \<Rightarrow> (exn + val) \<times> 'w env" where
  "call_post n p e s =
     (case post (methods n) (params n) p e (world s) of
        (r, w') \<Rightarrow> (r, s\<lparr>world := w', log := log s @ [EvPost p e]\<rparr>))"

text \<open>The spin loop on the wall clock: only that it happened, and for how long, is kept.\<close>

definition busy_wait :: "int \<Rightarrow> 'w env \<Rightarrow> 'w env" where
  "busy_wait t s = s\<lparr>log := log s @ (if t > 0 then [EvWait t] else [])\<rparr>"

subsection \<open>The retry loop\<close>

text \<open>
  \<^verbatim>\<open>Node._exec\<close>: the loop variable is the field \<^verbatim>\<open>this.curRetry\<close>; \<open>Node_exec_loop n p i s\<close>
  is the loop entered with \<^verbatim>\<open>this.curRetry = i\<close>. It returns the result, the value of
  \<^verbatim>\<open>this.curRetry\<close> at the return, and the environment.
\<close>

function Node_exec_loop ::
  "'w node \<Rightarrow> val \<Rightarrow> int \<Rightarrow> 'w env \<Rightarrow> (exn + val) \<times> int \<times> 'w env" where
  "Node_exec_loop n p i s =
     (if i < maxRetries n then
        (case call_exec n p s of
           (Inr v, s1) \<Rightarrow> (Inr v, i, s1)
         | (Inl e, s1) \<Rightarrow>
             if i = maxRetries n - 1 then
               (case call_execFallback n p e s1 of (r, s2) \<Rightarrow> (r, i, s2))
             else Node_exec_loop n p (i + 1) (busy_wait (wait n) s1))
      else (Inr VNull, i, s))"
  by pat_completeness auto
termination
  by (relation "measure (\<lambda>(n, p, i, s). nat (maxRetries n - i))") auto

definition Node__exec :: "'w node \<Rightarrow> val \<Rightarrow> 'w env \<Rightarrow> (exn + val) \<times> 'w node \<times> 'w env" where
  "Node__exec n p s =
     (case Node_exec_loop n p 0 s of (r, i, s') \<Rightarrow> (r, n\<lparr>curRetry := i\<rparr>, s'))"

definition BaseNode__exec :: "'w node \<Rightarrow> val \<Rightarrow> 'w env \<Rightarrow> (exn + val) \<times> 'w node \<times> 'w env" where
  "BaseNode__exec n p s = (case call_exec n p s of (r, s') \<Rightarrow> (r, n, s'))"

text \<open>The dynamic dispatch of \<^verbatim>\<open>this._exec\<close>.\<close>

definition dispatch__exec :: "'w node \<Rightarrow> val \<Rightarrow> 'w env \<Rightarrow> (exn + val) \<times> 'w node \<times> 'w env" where
  "dispatch__exec n p s =
     (case kind n of
        BaseNodeK \<Rightarrow> BaseNode__exec n p s
      | NodeK \<Rightarrow> Node__exec n p s
      | PlainK \<Rightarrow> (Inl (TypeError ''this._exec is not a function''), n, s))"

text \<open>\<^verbatim>\<open>BaseNode._run\<close>: prep, then \<^verbatim>\<open>_exec\<close>, then post; a throw leaves at once.\<close>

definition BaseNode__run :: "'w node \<Rightarrow> 'w env \<Rightarrow> (exn + val) \<times> 'w node \<times> 'w env" where
  "BaseNode__run n s =
     (case call_prep n s of
        (Inl x, s1) \<Rightarrow> (Inl x, n, s1)
      | (Inr p, s1) \<Rightarrow>
          (case dispatch__exec n p s1 of
             (Inl x, n2, s2) \<Rightarrow> (Inl x, n2, s2)
           | (Inr e, n2, s2) \<Rightarrow>
               (case call_post n2 p e s2 of (r, s3) \<Rightarrow> (r, n2, s3))))"

text \<open>\<^verbatim>\<open>BaseNode.run\<close>: the public entry point warns when the node has successors.\<close>

definition BaseNode_run :: "'w node \<Rightarrow> 'w env \<Rightarrow> (exn + val) \<times> 'w node \<times> 'w env" where
  "BaseNode_run n s =
     BaseNode__run n (if successors n \<noteq> [] then warn WontRunSuccessors s else s)"


section \<open>Flows\<close>

text \<open>
  Nodes are objects with identity. The heap is a list of object graphs; a reference is the
  number of a graph and the index of a node in it, and the successor tables of a graph
  hold indices into the same graph. Graph 0 is the graph the program registered with
  \<^verbatim>\<open>addSuccessor\<close>.
\<close>

type_synonym 'w graph = "'w node list"
type_synonym 'w heap = "'w graph list"
type_synonym ref = "nat \<times> nat"

definition valid :: "'w heap \<Rightarrow> ref \<Rightarrow> bool" where
  "valid h r = (fst r < length h \<and> snd r < length (h ! fst r))"

definition deref :: "'w heap \<Rightarrow> ref \<Rightarrow> 'w node" where
  "deref h r = h ! fst r ! snd r"

definition store :: "'w heap \<Rightarrow> ref \<Rightarrow> 'w node \<Rightarrow> 'w heap" where
  "store h r n = h[fst r := (h ! fst r)[snd r := n]]"

text \<open>
  \<^verbatim>\<open>structuredClone\<close> is the platform's structured clone. Of an object it copies the own
  data properties, deeply, and nothing of the prototype chain: the copy of an instance of
  a class is a plain object without the methods of the class, and so is the copy of every
  node reachable from it. The model allocates a new graph that holds a plain copy of every
  node of the graph of the argument and returns the reference to the same index there.
  (The platform copies the objects reachable from the argument; the copies of the others
  cannot be reached from the result.) On a plain object every phase is missing.
\<close>

definition no_methods :: "'w phases" where
  "no_methods =
     \<lparr> prep = (\<lambda>ps w. (Inl (TypeError ''this.prep is not a function''), w)),
       exec = (\<lambda>ps p w. (Inl (TypeError ''this.exec is not a function''), w)),
       execFallback = (\<lambda>ps p exc w. (Inl (TypeError ''this.execFallback is not a function''), w)),
       post = (\<lambda>ps p e w. (Inl (TypeError ''this.post is not a function''), w)) \<rparr>"

definition plain_copy :: "'w node \<Rightarrow> 'w node" where
  "plain_copy n = n\<lparr>kind := PlainK, methods := no_methods\<rparr>"

definition structuredClone :: "'w heap \<Rightarrow> ref \<Rightarrow> ref \<times> 'w heap" where
  "structuredClone h r = ((length h, snd r), h @ [map plain_copy (h ! fst r)])"

text \<open>
  The structured clone of \<^verbatim>\<open>Object.prototype\<close>, which has no enumerable property, is an
  empty plain object. It has none of the fields of the record; none is ever read, since
  the first use the orchestrator makes of it is the call of \<^verbatim>\<open>setParams\<close>.
\<close>

definition empty_object :: "'w node" where
  "empty_object =
     \<lparr> params = [], successors = [], kind = PlainK, methods = no_methods,
       maxRetries = 0, wait = 0, curRetry = 0 \<rparr>"

text \<open>
  \<^verbatim>\<open>Flow extends BaseNode\<close>: its own parameters, successors and \<^verbatim>\<open>prep\<close>/\<^verbatim>\<open>post\<close>, and
  the start node, a reference into the registered graph. The \<^verbatim>\<open>prep\<close> and \<^verbatim>\<open>post\<close> of a
  flow are user code that runs on the flow itself, which holds the registered graph: they
  take and return the heap besides the shared context. They do not assign the fields of
  the flow.
\<close>

record 'w flow_phases =
  flow_prep :: "params \<Rightarrow> 'w heap \<Rightarrow> 'w \<Rightarrow> (exn + val) \<times> 'w heap \<times> 'w"
  flow_post :: "params \<Rightarrow> val \<Rightarrow> val \<Rightarrow> 'w heap \<Rightarrow> 'w \<Rightarrow> (exn + val) \<times> 'w heap \<times> 'w"

definition default_flow_phases :: "'w flow_phases" where
  "default_flow_phases =
     \<lparr> flow_prep = (\<lambda>ps h w. (Inr VNull, h, w)),
       flow_post = (\<lambda>ps p e h w. (Inr VNull, h, w)) \<rparr>"

record 'w flow =
  flow_params :: params
  flow_successors :: "(string \<times> nat) list"
  start :: nat
  flow_methods :: "'w flow_phases"

definition Flow_new :: "'w flow_phases \<Rightarrow> nat \<Rightarrow> 'w flow" where
  "Flow_new ph st = \<lparr> flow_params = [], flow_successors = [], start = st, flow_methods = ph \<rparr>"

definition call_flow_prep ::
  "'w flow \<Rightarrow> 'w heap \<Rightarrow> 'w env \<Rightarrow> (exn + val) \<times> 'w heap \<times> 'w env" where
  "call_flow_prep f h s =
     (case flow_prep (flow_methods f) (flow_params f) h (world s) of
        (r, h', w') \<Rightarrow> (r, h', s\<lparr>world := w', log := log s @ [EvPrep]\<rparr>))"

definition call_flow_post ::
  "'w flow \<Rightarrow> val \<Rightarrow> val \<Rightarrow> 'w heap \<Rightarrow> 'w env \<Rightarrow> (exn + val) \<times> 'w heap \<times> 'w env" where
  "call_flow_post f p e h s =
     (case flow_post (flow_methods f) (flow_params f) p e h (world s) of
        (r, h', w') \<Rightarrow> (r, h', s\<lparr>world := w', log := log s @ [EvPost p e]\<rparr>))"

text \<open>
  \<^verbatim>\<open>getNextNode\<close>: reads \<^verbatim>\<open>curr.successors[action || "default"]\<close>, which converts the key
  to a string; warns when the result is falsy and the table is not empty; returns the
  result, or \<^verbatim>\<open>null\<close> for a falsy one.
\<close>

definition getNextNode :: "'w node \<Rightarrow> val \<Rightarrow> 'w env \<Rightarrow> (exn + looked_up) \<times> 'w env" where
  "getNextNode cur action s =
     (case toString (if truthy action then action else VStr ''default'') of
        Inl x \<Rightarrow> (Inl x, s)
      | Inr key \<Rightarrow>
          (let nxt = get_successor (successors cur) key
           in (Inr nxt,
               if nxt = Missing \<and> successors cur \<noteq> []
               then warn (FlowEnds action (map fst (successors cur))) s else s)))"

text \<open>
  The \<^verbatim>\<open>while (curr)\<close> loop of \<^verbatim>\<open>_orch\<close>. The calls \<^verbatim>\<open>curr.setParams(p)\<close> and
  \<^verbatim>\<open>curr._run(shared)\<close> are calls of methods of the current object: on a plain object the
  first of them throws a \<^verbatim>\<open>TypeError\<close>. A flow with a cycle may never end, so the loop takes
  fuel, one unit for each round: \<open>None\<close> is a run that is not over when the fuel is (or a
  reference that points nowhere, which no program can build).
\<close>

fun orch_loop ::
  "nat \<Rightarrow> params \<Rightarrow> ref option \<Rightarrow> 'w heap \<Rightarrow> 'w env \<Rightarrow> ((exn + unit) \<times> 'w heap \<times> 'w env) option" where
  "orch_loop k p None h s = Some (Inr (), h, s)"
| "orch_loop 0 p (Some a) h s = None"
| "orch_loop (Suc k) p (Some a) h s =
     (if \<not> valid h a then None
      else if kind (deref h a) = PlainK
      then Some (Inl (TypeError ''curr.setParams is not a function''), h, s)
      else
        let h1 = store h a (setParams (deref h a) p);
            s1 = s\<lparr>log := log s @ [EvRun (snd a) (params (deref h1 a))]\<rparr>
        in case BaseNode__run (deref h1 a) s1 of
             (Inl x, n2, s2) \<Rightarrow> Some (Inl x, store h1 a n2, s2)
           | (Inr c, n2, s2) \<Rightarrow>
               let h2 = store h1 a n2 in
               (case getNextNode (deref h2 a) c s2 of
                  (Inl x, s3) \<Rightarrow> Some (Inl x, h2, s3)
                | (Inr Missing, s3) \<Rightarrow> orch_loop k p None h2 s3
                | (Inr (Successor j), s3) \<Rightarrow>
                    (case structuredClone h2 (fst a, j) of
                       (a', h3) \<Rightarrow> orch_loop k p (Some a') h3 s3)
                | (Inr (Inherited m), s3) \<Rightarrow>
                    if m = ''__proto__''
                    then orch_loop k p (Some (length h2, 0)) (h2 @ [[empty_object]]) s3
                    else Some (Inl (DataCloneError (m @ '' could not be cloned'')), h2, s3)))"

text \<open>
  \<^verbatim>\<open>Flow._orch(shared, params?)\<close>: the loop starts at the structured clone of the start
  node (\<open>None\<close> when the reference points nowhere, as in the loop).
\<close>

definition Flow__orch ::
  "nat \<Rightarrow> 'w flow \<Rightarrow> params option \<Rightarrow> 'w heap \<Rightarrow> 'w env \<Rightarrow> ((exn + unit) \<times> 'w heap \<times> 'w env) option" where
  "Flow__orch fuel f ps h s =
     (if \<not> valid h (0, start f) then None
      else
        case structuredClone h (0, start f) of
          (cur, h1) \<Rightarrow>
            orch_loop fuel (case ps of Some p \<Rightarrow> p | None \<Rightarrow> flow_params f) (Some cur) h1 s)"

text \<open>\<^verbatim>\<open>Flow._run\<close>: the flow's \<^verbatim>\<open>prep\<close>, the orchestration, the flow's \<^verbatim>\<open>post\<close>.\<close>

definition Flow__run ::
  "nat \<Rightarrow> 'w flow \<Rightarrow> 'w heap \<Rightarrow> 'w env \<Rightarrow> ((exn + val) \<times> 'w heap \<times> 'w env) option" where
  "Flow__run fuel f h s =
     (case call_flow_prep f h s of
        (Inl x, h1, s1) \<Rightarrow> Some (Inl x, h1, s1)
      | (Inr pr, h1, s1) \<Rightarrow>
          (case Flow__orch fuel f None h1 s1 of
             None \<Rightarrow> None
           | Some (Inl x, h2, s2) \<Rightarrow> Some (Inl x, h2, s2)
           | Some (Inr u, h2, s2) \<Rightarrow>
               (case call_flow_post f pr VNull h2 s2 of (r, h3, s3) \<Rightarrow> Some (r, h3, s3))))"

text \<open>\<^verbatim>\<open>run\<close>, inherited from \<^verbatim>\<open>BaseNode\<close>, on a flow.\<close>

definition Flow_run ::
  "nat \<Rightarrow> 'w flow \<Rightarrow> 'w heap \<Rightarrow> 'w env \<Rightarrow> ((exn + val) \<times> 'w heap \<times> 'w env) option" where
  "Flow_run fuel f h s =
     Flow__run fuel f h (if flow_successors f \<noteq> [] then warn WontRunSuccessors s else s)"

text \<open>The \<^verbatim>\<open>forEach\<close> of \<^verbatim>\<open>BatchFlow._run\<close>: a throw ends it.\<close>

fun batch_forEach ::
  "nat \<Rightarrow> 'w flow \<Rightarrow> val list \<Rightarrow> 'w heap \<Rightarrow> 'w env \<Rightarrow> ((exn + unit) \<times> 'w heap \<times> 'w env) option" where
  "batch_forEach fuel f [] h s = Some (Inr (), h, s)"
| "batch_forEach fuel f (bp # bps) h s =
     (case Flow__orch fuel f (Some (spread2 (flow_params f) (spread bp))) h s of
        None \<Rightarrow> None
      | Some (Inl x, h', s') \<Rightarrow> Some (Inl x, h', s')
      | Some (Inr u, h', s') \<Rightarrow> batch_forEach fuel f bps h' s')"

definition BatchFlow__run ::
  "nat \<Rightarrow> 'w flow \<Rightarrow> 'w heap \<Rightarrow> 'w env \<Rightarrow> ((exn + val) \<times> 'w heap \<times> 'w env) option" where
  "BatchFlow__run fuel f h s =
     (case call_flow_prep f h s of
        (Inl x, h1, s1) \<Rightarrow> Some (Inl x, h1, s1)
      | (Inr v, h1, s1) \<Rightarrow>
          (let pr = (if truthy v then v else VArr []) in
           case pr of
             VArr items \<Rightarrow>
               (case batch_forEach fuel f items h1 s1 of
                  None \<Rightarrow> None
                | Some (Inl x, h2, s2) \<Rightarrow> Some (Inl x, h2, s2)
                | Some (Inr u, h2, s2) \<Rightarrow>
                    (case call_flow_post f pr VNull h2 s2 of (r, h3, s3) \<Rightarrow> Some (r, h3, s3)))
           | _ \<Rightarrow> Some (Inl (TypeError ''pr.forEach is not a function''), h1, s1)))"

section \<open>Parallel batches\<close>

text \<open>
  \<^verbatim>\<open>AsyncNode\<close> has \<^verbatim>\<open>execAsync\<close> and \<^verbatim>\<open>execFallbackAsync\<close> in place of the synchronous
  phases, and its \<^verbatim>\<open>_exec\<close> keeps the attempt counter in a local variable. The tasks of a
  parallel batch run interleaved; in the model a task is a function of its item (the tasks
  share no state), and what is left of the interleaving is the order in which the tasks
  settle.
\<close>

record async_phases =
  execAsync :: "params \<Rightarrow> val \<Rightarrow> exn + val"
  execFallbackAsync :: "params \<Rightarrow> val \<Rightarrow> exn \<Rightarrow> exn + val"

definition default_async_phases :: async_phases where
  "default_async_phases =
     \<lparr> execAsync = (\<lambda>ps p. Inr VNull), execFallbackAsync = (\<lambda>ps p exc. Inl exc) \<rparr>"

record async_node =
  a_params :: params
  a_methods :: async_phases
  a_maxRetries :: int
  a_wait :: int

function AsyncNode_exec_loop :: "async_node \<Rightarrow> val \<Rightarrow> int \<Rightarrow> exn + val" where
  "AsyncNode_exec_loop n p i =
     (if i < a_maxRetries n then
        (case execAsync (a_methods n) (a_params n) p of
           Inr v \<Rightarrow> Inr v
         | Inl e \<Rightarrow>
             if i = a_maxRetries n - 1 then execFallbackAsync (a_methods n) (a_params n) p e
             else AsyncNode_exec_loop n p (i + 1))
      else Inr VNull)"
  by pat_completeness auto
termination
  by (relation "measure (\<lambda>(n, p, i). nat (a_maxRetries n - i))") auto

definition AsyncNode__exec :: "async_node \<Rightarrow> val \<Rightarrow> exn + val" where
  "AsyncNode__exec n p = AsyncNode_exec_loop n p 0"

text \<open>
  \<^verbatim>\<open>Promise.all\<close> is the platform's: it keeps an array of values and a count of the
  promises still pending; a promise that fulfils stores its value at its own index, the
  last one to fulfil resolves the result with the array, and the first one to reject
  rejects the result. \<open>outs\<close> are the outcomes of the promises by index and \<open>order\<close> the
  indices in the order they settle; \<open>None\<close> is a result that stays pending.
\<close>

fun Promise_all_loop ::
  "(exn + val) list \<Rightarrow> nat list \<Rightarrow> val list \<Rightarrow> nat \<Rightarrow> (exn + val) option" where
  "Promise_all_loop outs [] vals remaining = None"
| "Promise_all_loop outs (i # order) vals remaining =
     (if length outs \<le> i then None
      else
        case outs ! i of
          Inl e \<Rightarrow> Some (Inl e)
        | Inr v \<Rightarrow>
            if remaining = 1 then Some (Inr (VArr (vals[i := v])))
            else Promise_all_loop outs order (vals[i := v]) (remaining - 1))"

definition Promise_all :: "(exn + val) list \<Rightarrow> nat list \<Rightarrow> (exn + val) option" where
  "Promise_all outs order =
     (if outs = [] then Some (Inr (VArr []))
      else Promise_all_loop outs order (replicate (length outs) VUndefined) (length outs))"

text \<open>\<^verbatim>\<open>AsyncParallelBatchNode._exec\<close>: \<^verbatim>\<open>Promise.all((items || []).map(item => super._exec(item)))\<close>.\<close>

definition AsyncParallelBatchNode__exec ::
  "async_node \<Rightarrow> val \<Rightarrow> nat list \<Rightarrow> (exn + val) option" where
  "AsyncParallelBatchNode__exec n items order =
     (case (if truthy items then items else VArr []) of
        VArr xs \<Rightarrow> Promise_all (map (AsyncNode__exec n) xs) order
      | _ \<Rightarrow> Some (Inl (TypeError ''(items || []).map is not a function'')))"

section \<open>Reading the log\<close>

definition exec_calls :: "event list \<Rightarrow> nat" where
  "exec_calls evs = length (filter (\<lambda>e. case e of EvExec _ \<Rightarrow> True | _ \<Rightarrow> False) evs)"

definition fallback_calls :: "event list \<Rightarrow> nat" where
  "fallback_calls evs = length (filter (\<lambda>e. case e of EvFallback _ _ \<Rightarrow> True | _ \<Rightarrow> False) evs)"

definition node_runs :: "event list \<Rightarrow> (nat \<times> params) list" where
  "node_runs evs = concat (map (\<lambda>e. case e of EvRun i ps \<Rightarrow> [(i, ps)] | _ \<Rightarrow> []) evs)"


text \<open>
  A condition on the user code of a flow: its \<^verbatim>\<open>prep\<close> and \<^verbatim>\<open>post\<close> leave every object
  graph that exists as it is (they may allocate).
\<close>

definition keeps_graphs :: "'w flow \<Rightarrow> bool" where
  "keeps_graphs f =
     ((\<forall>ps h w. take (length h) (fst (snd (flow_prep (flow_methods f) ps h w))) = h)
      \<and> (\<forall>ps p e h w. take (length h) (fst (snd (flow_post (flow_methods f) ps p e h w))) = h))"

section \<open>Scenarios\<close>

text \<open>
  Concrete nodes the general theorems are run on. The world of \<open>flaky\<close> and \<open>failing\<close>
  counts the calls of \<^verbatim>\<open>exec\<close>: \<open>flaky\<close> throws on its first two calls, \<open>failing\<close> on
  every call, and its fallback is a parameter.
\<close>

definition flaky :: "nat phases" where
  "flaky = default_phases
     \<lparr> exec := (\<lambda>ps p w. (if w < 2 then Inl (Error ''boom'') else Inr (VStr ''ok''), Suc w)) \<rparr>"

definition flaky_node :: "nat node" where
  "flaky_node = \<lparr> params = [], successors = [], kind = NodeK, methods = flaky,
       maxRetries = 3, wait = 0, curRetry = 0 \<rparr>"

definition failing :: "(exn \<Rightarrow> exn + val) \<Rightarrow> nat phases" where
  "failing fb = default_phases
     \<lparr> exec := (\<lambda>ps p w. (Inl (Error (''attempt '' @ show_nat w)), Suc w)),
       execFallback := (\<lambda>ps p exc w. (fb exc, w)) \<rparr>"

definition failing_node :: "(exn \<Rightarrow> exn + val) \<Rightarrow> nat node" where
  "failing_node fb = \<lparr> params = [], successors = [], kind = NodeK, methods = failing fb,
       maxRetries = 3, wait = 0, curRetry = 0 \<rparr>"

definition eager :: "unit phases" where
  "eager = default_phases \<lparr> exec := (\<lambda>ps p w. (Inr (VStr ''computed''), w)) \<rparr>"

definition zero_retry_node :: "unit node" where
  "zero_retry_node = \<lparr> params = [], successors = [], kind = NodeK, methods = eager,
       maxRetries = 0, wait = 0, curRetry = 0 \<rparr>"

definition plain_node :: "unit node" where
  "plain_node = BaseNode_new default_phases"

text \<open>
  A registered graph of two nodes, instances of subclasses of \<^verbatim>\<open>BaseNode\<close>. The first has
  a parameter of its own, returns \<^verbatim>\<open>"success"\<close> from \<^verbatim>\<open>post\<close> and has the second as its
  successor for that action; the second returns \<^verbatim>\<open>"done"\<close>, for which it has no successor.
  Each \<^verbatim>\<open>exec\<close> appends the value of the parameter \<^verbatim>\<open>k\<close> it sees to the shared context.
\<close>

definition tracing :: "string \<Rightarrow> (val option list) phases" where
  "tracing result = default_phases
     \<lparr> exec := (\<lambda>ps p w. (Inr VNull, w @ [map_of ps ''k''])),
       post := (\<lambda>ps p e w. (Inr (VStr result), w)) \<rparr>"

definition first_node :: "(val option list) node" where
  "first_node = \<lparr> params = [(''k'', VStr ''own'')], successors = [(''success'', 1)],
       kind = BaseNodeK, methods = tracing ''success'', maxRetries = 1, wait = 0, curRetry = 0 \<rparr>"

definition second_node :: "(val option list) node" where
  "second_node = \<lparr> params = [], successors = [],
       kind = BaseNodeK, methods = tracing ''done'', maxRetries = 1, wait = 0, curRetry = 0 \<rparr>"

definition two_heap :: "(val option list) heap" where
  "two_heap = [[first_node, second_node]]"

text \<open>A flow over that graph, with the default \<^verbatim>\<open>prep\<close> and \<^verbatim>\<open>post\<close> of \<^verbatim>\<open>BaseNode\<close>.\<close>

definition two_flow :: "(val option list) flow" where
  "two_flow = \<lparr> flow_params = [(''k'', VStr ''flow'')], flow_successors = [], start = 0,
       flow_methods = default_flow_phases \<rparr>"

text \<open>The same flow as a batch flow whose \<^verbatim>\<open>prep\<close> returns the given items.\<close>

definition batch_flow :: "val list \<Rightarrow> (val option list) flow" where
  "batch_flow items = two_flow
     \<lparr> flow_methods := default_flow_phases \<lparr> flow_prep := (\<lambda>ps h w. (Inr (VArr items), h, w)) \<rparr> \<rparr>"

definition env0 :: "(val option list) env" where
  "env0 = \<lparr> world = [], log = [] \<rparr>"

text \<open>The structured clone of the registered graph: the same data, without the methods.\<close>

definition two_clone :: "(val option list) graph" where
  "two_clone =
     [\<lparr> params = [(''k'', VStr ''own'')], successors = [(''success'', 1)],
         kind = PlainK, methods = no_methods, maxRetries = 1, wait = 0, curRetry = 0 \<rparr>,
      \<lparr> params = [], successors = [],
         kind = PlainK, methods = no_methods, maxRetries = 1, wait = 0, curRetry = 0 \<rparr>]"


text \<open>An asynchronous node that doubles a string, and throws on anything else.\<close>

definition doubling :: async_node where
  "doubling =
     \<lparr> a_params = [],
       a_methods = default_async_phases
         \<lparr> execAsync := (\<lambda>ps p. case p of VStr x \<Rightarrow> Inr (VStr (x @ x))
                                      | _ \<Rightarrow> Inl (TypeError ''not a string'')) \<rparr>,
       a_maxRetries = 1, a_wait = 0 \<rparr>"

definition double :: "val \<Rightarrow> val" where
  "double v = (case v of VStr x \<Rightarrow> VStr (x @ x) | _ \<Rightarrow> VNull)"

section \<open>Counting events\<close>

lemma exec_calls_simps [simp]:
  "exec_calls [] = 0"
  "exec_calls (EvExec p # evs) = Suc (exec_calls evs)"
  "exec_calls (EvWait t # evs) = exec_calls evs"
  "exec_calls (EvFallback p x # evs) = exec_calls evs"
  "exec_calls (EvPrep # evs) = exec_calls evs"
  "exec_calls (EvPost p e # evs) = exec_calls evs"
  "exec_calls (EvWarn m # evs) = exec_calls evs"
  "exec_calls (EvRun i ps # evs) = exec_calls evs"
  "exec_calls (xs @ ys) = exec_calls xs + exec_calls ys"
  by (simp_all add: exec_calls_def)

lemma fallback_calls_simps [simp]:
  "fallback_calls [] = 0"
  "fallback_calls (EvExec p # evs) = fallback_calls evs"
  "fallback_calls (EvWait t # evs) = fallback_calls evs"
  "fallback_calls (EvFallback p x # evs) = Suc (fallback_calls evs)"
  "fallback_calls (EvPrep # evs) = fallback_calls evs"
  "fallback_calls (EvPost p e # evs) = fallback_calls evs"
  "fallback_calls (EvWarn m # evs) = fallback_calls evs"
  "fallback_calls (EvRun i ps # evs) = fallback_calls evs"
  "fallback_calls (xs @ ys) = fallback_calls xs + fallback_calls ys"
  by (simp_all add: fallback_calls_def)

lemma node_runs_simps [simp]:
  "node_runs [] = []"
  "node_runs (EvExec p # evs) = node_runs evs"
  "node_runs (EvWait t # evs) = node_runs evs"
  "node_runs (EvFallback p x # evs) = node_runs evs"
  "node_runs (EvPrep # evs) = node_runs evs"
  "node_runs (EvPost p e # evs) = node_runs evs"
  "node_runs (EvWarn m # evs) = node_runs evs"
  "node_runs (EvRun i ps # evs) = (i, ps) # node_runs evs"
  "node_runs (xs @ ys) = node_runs xs @ node_runs ys"
  by (simp_all add: node_runs_def)

section \<open>The retry loop\<close>

declare Node_exec_loop.simps [simp del]

lemma busy_wait_world [simp]: "world (busy_wait t s) = world s"
  by (simp add: busy_wait_def)

lemma busy_wait_log: "\<exists>evs. busy_wait t s = s\<lparr>log := log s @ evs\<rparr> \<and> exec_calls evs = 0
   \<and> fallback_calls evs = 0 \<and> node_runs evs = []"
  by (intro exI[of _ "if t > 0 then [EvWait t] else []"]) (simp add: busy_wait_def)

lemma loop_succeeds:
  assumes "i < N"
    and "\<forall>k. i \<le> k \<and> k < N - 1 \<longrightarrow> exec (methods n) (params n) p (ws k) = (Inl (es k), ws (Suc k))"
    and "exec (methods n) (params n) p (ws (N - 1)) = (Inr v, w')"
    and "world s = ws i"
    and "maxRetries n = int N"
  shows "\<exists>evs. Node_exec_loop n p (int i) s = (Inr v, int N - 1, s\<lparr>world := w', log := log s @ evs\<rparr>)
           \<and> exec_calls evs = N - i \<and> fallback_calls evs = 0 \<and> node_runs evs = []"
  using assms
proof (induction "N - 1 - i" arbitrary: i s)
  case 0
  then have i: "i = N - 1" by simp
  with 0 have "call_exec n p s = (Inr v, s\<lparr>world := w', log := log s @ [EvExec p]\<rparr>)"
    by (simp add: call_exec_def)
  with 0 i have "Node_exec_loop n p (int i) s = (Inr v, int N - 1, s\<lparr>world := w', log := log s @ [EvExec p]\<rparr>)"
    by (subst Node_exec_loop.simps) (auto simp: of_nat_diff)
  moreover have "exec_calls [EvExec p] = N - i" using 0 i by simp
  ultimately show ?case by (intro exI[of _ "[EvExec p]"]) simp
next
  case (Suc d)
  then have lt: "i < N - 1" by simp
  with Suc.prems have ex: "exec (methods n) (params n) p (ws i) = (Inl (es i), ws (Suc i))" by simp
  let ?s1 = "s\<lparr>world := ws (Suc i), log := log s @ [EvExec p]\<rparr>"
  have ce: "call_exec n p s = (Inl (es i), ?s1)"
    using ex Suc.prems by (simp add: call_exec_def)
  obtain wv where wv: "busy_wait (wait n) ?s1 = ?s1\<lparr>log := log ?s1 @ wv\<rparr>"
      "exec_calls wv = 0" "fallback_calls wv = 0" "node_runs wv = []"
    using busy_wait_log by blast
  let ?s2 = "busy_wait (wait n) ?s1"
  have step: "Node_exec_loop n p (int i) s = Node_exec_loop n p (int (Suc i)) ?s2"
    using lt ce Suc.prems by (subst Node_exec_loop.simps) (auto simp: add.commute)
  have "\<exists>evs. Node_exec_loop n p (int (Suc i)) ?s2 = (Inr v, int N - 1, ?s2\<lparr>world := w', log := log ?s2 @ evs\<rparr>)
           \<and> exec_calls evs = N - Suc i \<and> fallback_calls evs = 0 \<and> node_runs evs = []"
    using Suc.hyps(2) Suc.prems lt by (intro Suc.hyps(1)) auto
  then obtain evs where evs: "Node_exec_loop n p (int (Suc i)) ?s2 = (Inr v, int N - 1, ?s2\<lparr>world := w', log := log ?s2 @ evs\<rparr>)"
     "exec_calls evs = N - Suc i" "fallback_calls evs = 0" "node_runs evs = []" by blast
  have "?s2\<lparr>world := w', log := log ?s2 @ evs\<rparr> = s\<lparr>world := w', log := log s @ ([EvExec p] @ wv @ evs)\<rparr>"
    by (subst wv(1))+ simp
  with step evs wv lt show ?case
    by (intro exI[of _ "[EvExec p] @ wv @ evs"]) simp
qed


lemma loop_exhausts:
  assumes "i < N"
    and "\<forall>k. i \<le> k \<and> k < N \<longrightarrow> exec (methods n) (params n) p (ws k) = (Inl (es k), ws (Suc k))"
    and "execFallback (methods n) (params n) p (es (N - 1)) (ws N) = (fr, w')"
    and "world s = ws i"
    and "maxRetries n = int N"
  shows "\<exists>evs. Node_exec_loop n p (int i) s =
             (fr, int N - 1, s\<lparr>world := w', log := log s @ evs @ [EvFallback p (es (N - 1))]\<rparr>)
           \<and> exec_calls evs = N - i \<and> fallback_calls evs = 0 \<and> node_runs evs = []"
  using assms
proof (induction "N - 1 - i" arbitrary: i s)
  case 0
  then have i: "i = N - 1" and N: "Suc i = N" by simp_all
  let ?s1 = "s\<lparr>world := ws N, log := log s @ [EvExec p]\<rparr>"
  from 0 i N have "exec (methods n) (params n) p (ws i) = (Inl (es i), ws N)" by auto
  with 0 have ce: "call_exec n p s = (Inl (es i), ?s1)"
    by (simp add: call_exec_def)
  have cf: "call_execFallback n p (es i) ?s1 =
      (fr, s\<lparr>world := w', log := log s @ [EvExec p] @ [EvFallback p (es (N - 1))]\<rparr>)"
    using 0 i by (simp add: call_execFallback_def)
  have "Node_exec_loop n p (int i) s =
      (fr, int N - 1, s\<lparr>world := w', log := log s @ [EvExec p] @ [EvFallback p (es (N - 1))]\<rparr>)"
    using 0 i ce cf by (subst Node_exec_loop.simps) (auto simp: of_nat_diff)
  moreover have "exec_calls [EvExec p] = N - i" using 0 i by simp
  ultimately show ?case by (intro exI[of _ "[EvExec p]"]) simp
next
  case (Suc d)
  then have lt: "i < N - 1" by simp
  with Suc.prems have ex: "exec (methods n) (params n) p (ws i) = (Inl (es i), ws (Suc i))" by simp
  let ?s1 = "s\<lparr>world := ws (Suc i), log := log s @ [EvExec p]\<rparr>"
  let ?wv = "if wait n > 0 then [EvWait (wait n)] else []"
  let ?s2 = "s\<lparr>world := ws (Suc i), log := log s @ [EvExec p] @ ?wv\<rparr>"
  have ce: "call_exec n p s = (Inl (es i), ?s1)"
    using ex Suc.prems by (simp add: call_exec_def)
  have bw: "busy_wait (wait n) ?s1 = ?s2" by (simp add: busy_wait_def)
  have step: "Node_exec_loop n p (int i) s = Node_exec_loop n p (int (Suc i)) ?s2"
    using lt ce bw Suc.prems by (subst Node_exec_loop.simps) (auto simp: add.commute)
  have "\<exists>evs. Node_exec_loop n p (int (Suc i)) ?s2 =
             (fr, int N - 1, ?s2\<lparr>world := w', log := log ?s2 @ evs @ [EvFallback p (es (N - 1))]\<rparr>)
           \<and> exec_calls evs = N - Suc i \<and> fallback_calls evs = 0 \<and> node_runs evs = []"
    using Suc.hyps(2) Suc.prems lt by (intro Suc.hyps(1)) auto
  then obtain evs where evs: "Node_exec_loop n p (int (Suc i)) ?s2 =
             (fr, int N - 1, ?s2\<lparr>world := w', log := log ?s2 @ evs @ [EvFallback p (es (N - 1))]\<rparr>)"
     "exec_calls evs = N - Suc i" "fallback_calls evs = 0" "node_runs evs = []" by blast
  have wv0: "exec_calls ?wv = 0" "fallback_calls ?wv = 0" "node_runs ?wv = []" by simp_all
  from step evs wv0 lt show ?case
    by (intro exI[of _ "[EvExec p] @ ?wv @ evs"]) simp
qed

text \<open>
  Claim C1. A \<^verbatim>\<open>Node\<close> with \<^verbatim>\<open>maxRetries = N\<close>, \<open>N \<ge> 1\<close>, whose \<^verbatim>\<open>exec\<close> throws on its
  first \<open>N - 1\<close> calls and returns \<open>v\<close> on the \<open>N\<close>-th: the run calls \<^verbatim>\<open>exec\<close> exactly \<open>N\<close>
  times, never the fallback, and \<^verbatim>\<open>post\<close> receives \<open>v\<close> as the result of the compute
  phase. The worlds \<open>ws k\<close> are the states user code sees at the call number \<open>k\<close>.
\<close>

theorem retry_until_success:
  assumes "kind n = NodeK" and "1 \<le> N" and "maxRetries n = int N"
    and "prep (methods n) (params n) (world s) = (Inr p, ws 0)"
    and "\<forall>k<N - 1. exec (methods n) (params n) p (ws k) = (Inl (es k), ws (Suc k))"
    and "exec (methods n) (params n) p (ws (N - 1)) = (Inr v, w')"
    and "post (methods n) (params n) p v w' = (r, w'')"
  shows "\<exists>evs. exec_calls evs = N \<and> fallback_calls evs = 0 \<and>
           BaseNode__run n s =
             (r, n\<lparr>curRetry := int N - 1\<rparr>,
              \<lparr>world = w'', log = log s @ [EvPrep] @ evs @ [EvPost p v]\<rparr>)"
proof -
  let ?s1 = "s\<lparr>world := ws 0, log := log s @ [EvPrep]\<rparr>"
  have cp: "call_prep n s = (Inr p, ?s1)"
    using assms(4) by (simp add: call_prep_def)
  have "\<exists>evs. Node_exec_loop n p (int 0) ?s1 =
           (Inr v, int N - 1, ?s1\<lparr>world := w', log := log ?s1 @ evs\<rparr>)
         \<and> exec_calls evs = N - 0 \<and> fallback_calls evs = 0 \<and> node_runs evs = []"
    using assms by (intro loop_succeeds[where ws = ws and es = es]) auto
  then obtain evs where evs:
    "Node_exec_loop n p 0 ?s1 = (Inr v, int N - 1, ?s1\<lparr>world := w', log := log ?s1 @ evs\<rparr>)"
    "exec_calls evs = N" "fallback_calls evs = 0" by auto
  have "BaseNode__run n s =
      (r, n\<lparr>curRetry := int N - 1\<rparr>, \<lparr>world = w'', log = log s @ [EvPrep] @ evs @ [EvPost p v]\<rparr>)"
    using cp evs(1) assms(1,7)
    by (simp add: BaseNode__run_def dispatch__exec_def Node__exec_def call_post_def)
  with evs(2,3) show ?thesis by blast
qed

theorem retry_until_success_witness:
  "\<exists>evs. exec_calls evs = 3 \<and> fallback_calls evs = 0 \<and>
     BaseNode__run flaky_node \<lparr>world = 0, log = []\<rparr> =
       (Inr VNull, flaky_node\<lparr>curRetry := 2\<rparr>,
        \<lparr>world = 3, log = [EvPrep] @ evs @ [EvPost VNull (VStr ''ok'')]\<rparr>)"
  using retry_until_success [of flaky_node 3 "\<lparr>world = 0, log = []\<rparr>" VNull "\<lambda>k. k"
      "\<lambda>k. Error ''boom''" "VStr ''ok''" 3 "Inr VNull" 3]
  by (simp add: flaky_node_def flaky_def default_phases_def)

text \<open>
  Claim C2. A \<^verbatim>\<open>Node\<close> with \<^verbatim>\<open>maxRetries = N\<close>, \<open>N \<ge> 1\<close>, whose \<^verbatim>\<open>exec\<close> throws on all
  \<open>N\<close> attempts: \<^verbatim>\<open>execFallback\<close> is called exactly once, after the last attempt and with
  the error of that attempt. When it returns \<open>v\<close>, \<^verbatim>\<open>post\<close> receives \<open>v\<close> as the result of the
  compute phase; when it throws, the run ends with that error, \<^verbatim>\<open>post\<close> is not called and
  the fallback is not called again.
\<close>

theorem fallback_after_last_attempt:
  assumes "kind n = NodeK" and "1 \<le> N" and "maxRetries n = int N"
    and "prep (methods n) (params n) (world s) = (Inr p, ws 0)"
    and "\<forall>k<N. exec (methods n) (params n) p (ws k) = (Inl (es k), ws (Suc k))"
    and "execFallback (methods n) (params n) p (es (N - 1)) (ws N) = (fr, w')"
  shows "\<exists>evs. exec_calls evs = N \<and> fallback_calls evs = 0 \<and>
           BaseNode__run n s =
             (case fr of
                Inl x \<Rightarrow>
                  (Inl x, n\<lparr>curRetry := int N - 1\<rparr>,
                   \<lparr>world = w', log = log s @ [EvPrep] @ evs @ [EvFallback p (es (N - 1))]\<rparr>)
              | Inr v \<Rightarrow>
                  (fst (post (methods n) (params n) p v w'), n\<lparr>curRetry := int N - 1\<rparr>,
                   \<lparr>world = snd (post (methods n) (params n) p v w'),
                    log = log s @ [EvPrep] @ evs @ [EvFallback p (es (N - 1)), EvPost p v]\<rparr>))"
proof -
  let ?s1 = "s\<lparr>world := ws 0, log := log s @ [EvPrep]\<rparr>"
  have cp: "call_prep n s = (Inr p, ?s1)"
    using assms(4) by (simp add: call_prep_def)
  have "\<exists>evs. Node_exec_loop n p (int 0) ?s1 =
           (fr, int N - 1, ?s1\<lparr>world := w', log := log ?s1 @ evs @ [EvFallback p (es (N - 1))]\<rparr>)
         \<and> exec_calls evs = N - 0 \<and> fallback_calls evs = 0 \<and> node_runs evs = []"
    using assms by (intro loop_exhausts[where ws = ws]) auto
  then obtain evs where evs:
    "Node_exec_loop n p 0 ?s1 =
       (fr, int N - 1, ?s1\<lparr>world := w', log := log ?s1 @ evs @ [EvFallback p (es (N - 1))]\<rparr>)"
    "exec_calls evs = N" "fallback_calls evs = 0" by auto
  have "BaseNode__run n s =
             (case fr of
                Inl x \<Rightarrow>
                  (Inl x, n\<lparr>curRetry := int N - 1\<rparr>,
                   \<lparr>world = w', log = log s @ [EvPrep] @ evs @ [EvFallback p (es (N - 1))]\<rparr>)
              | Inr v \<Rightarrow>
                  (fst (post (methods n) (params n) p v w'), n\<lparr>curRetry := int N - 1\<rparr>,
                   \<lparr>world = snd (post (methods n) (params n) p v w'),
                    log = log s @ [EvPrep] @ evs @ [EvFallback p (es (N - 1)), EvPost p v]\<rparr>))"
    using cp evs(1) assms(1)
    by (cases fr)
       (simp_all add: BaseNode__run_def dispatch__exec_def Node__exec_def call_post_def
          split: prod.splits)
  with evs(2,3) show ?thesis by blast
qed

theorem fallback_after_last_attempt_witness:
  "(\<exists>evs. exec_calls evs = 3 \<and> fallback_calls evs = 0 \<and>
     BaseNode__run (failing_node (\<lambda>exc. Inr (VStr ''recovered''))) \<lparr>world = 0, log = []\<rparr> =
       (Inr VNull, failing_node (\<lambda>exc. Inr (VStr ''recovered''))\<lparr>curRetry := 2\<rparr>,
        \<lparr>world = 3,
         log = [EvPrep] @ evs @
               [EvFallback VNull (Error ''attempt 2''), EvPost VNull (VStr ''recovered'')]\<rparr>))
   \<and> (\<exists>evs. exec_calls evs = 3 \<and> fallback_calls evs = 0 \<and>
     BaseNode__run (failing_node (\<lambda>exc. Inl (Error ''fallback failed''))) \<lparr>world = 0, log = []\<rparr> =
       (Inl (Error ''fallback failed''),
        failing_node (\<lambda>exc. Inl (Error ''fallback failed''))\<lparr>curRetry := 2\<rparr>,
        \<lparr>world = 3, log = [EvPrep] @ evs @ [EvFallback VNull (Error ''attempt 2'')]\<rparr>))"
  using fallback_after_last_attempt [of "failing_node (\<lambda>exc. Inr (VStr ''recovered''))" 3
      "\<lparr>world = 0, log = []\<rparr>" VNull "\<lambda>k. k" "\<lambda>k. Error (''attempt '' @ show_nat k)"
      "Inr (VStr ''recovered'')" 3]
    fallback_after_last_attempt [of "failing_node (\<lambda>exc. Inl (Error ''fallback failed''))" 3
      "\<lparr>world = 0, log = []\<rparr>" VNull "\<lambda>k. k" "\<lambda>k. Error (''attempt '' @ show_nat k)"
      "Inl (Error ''fallback failed'')" 3]
  by (simp add: failing_node_def failing_def default_phases_def digit_def)

text \<open>
  The claim C5 says that \<^verbatim>\<open>maxRetries = 0\<close> is rejected by the constructor. The constructor
  checks nothing: the node is built, and its run calls neither \<^verbatim>\<open>exec\<close> nor the fallback
  and hands \<^verbatim>\<open>null\<close> to \<^verbatim>\<open>post\<close>.
\<close>

theorem zero_retries_accepted_counterexample:
  "Node_new eager (Some 0) None = Inr zero_retry_node
   \<and> BaseNode__run zero_retry_node \<lparr>world = (), log = []\<rparr> =
       (Inr VNull, zero_retry_node, \<lparr>world = (), log = [EvPrep, EvPost VNull VNull]\<rparr>)"
  by (simp add: Node_new_def zero_retry_node_def eager_def default_phases_def BaseNode__run_def
      dispatch__exec_def Node__exec_def Node_exec_loop.simps call_prep_def call_post_def)

text \<open>
  Claim C5, amended. Constructing a \<^verbatim>\<open>Node\<close> with \<^verbatim>\<open>maxRetries = 0\<close> succeeds, and
  \<^verbatim>\<open>_exec\<close> of that node returns \<^verbatim>\<open>null\<close> without calling \<^verbatim>\<open>exec\<close> or the fallback: the
  environment, log included, is unchanged. A run of the node is \<^verbatim>\<open>prep\<close> followed by
  \<^verbatim>\<open>post\<close> with \<^verbatim>\<open>null\<close> as the result of the compute phase.
\<close>

theorem zero_retries_skip_compute:
  "\<exists>n. Node_new ph (Some 0) wt = Inr n \<and> maxRetries n = 0
     \<and> Node__exec n p s = (Inr VNull, n, s)
     \<and> BaseNode__run n s =
         (case call_prep n s of
            (Inl x, s1) \<Rightarrow> (Inl x, n, s1)
          | (Inr q, s1) \<Rightarrow> (case call_post n q VNull s1 of (r, s2) \<Rightarrow> (r, n, s2)))"
  by (simp add: Node_new_def Node__exec_def Node_exec_loop.simps BaseNode__run_def
      dispatch__exec_def split: prod.splits sum.splits)

theorem zero_retries_skip_compute_witness:
  "\<exists>n. Node_new eager (Some 0) None = Inr n \<and> maxRetries n = 0
     \<and> Node__exec n (VStr ''input'') \<lparr>world = (), log = []\<rparr> = (Inr VNull, n, \<lparr>world = (), log = []\<rparr>)"
  using zero_retries_skip_compute [of eager None "VStr ''input''" "\<lparr>world = (), log = []\<rparr>"]
  by blast

section \<open>Objects\<close>

lemma map_of_ins_index:
  "map_of kvs k = None \<Longrightarrow> map_of (ins_index i (k, v) kvs) = (map_of kvs)(k \<mapsto> v)"
proof (induction kvs)
  case Nil
  then show ?case by simp
next
  case (Cons x xs)
  then have ne: "fst x \<noteq> k" and rest: "map_of xs k = None"
    by (cases x; auto split: if_splits)+
  from Cons.IH[OF rest] ne show ?case
    by (cases x) (auto split: option.splits)
qed

lemma map_of_obj_set: "map_of (obj_set k v kvs) = (map_of kvs)(k \<mapsto> v)"
proof (cases "map_of kvs k")
  case None
  have "[k \<mapsto> v] ++ map_of kvs = (map_of kvs)(k \<mapsto> v)"
    using None by (auto simp: map_add_def split: option.splits)
  with None show ?thesis
    by (auto simp: obj_set_def map_of_ins_index split: option.splits)
next
  case (Some a)
  then show ?thesis by (simp add: obj_set_def update_conv')
qed


text \<open>
  Claim C6. Calling \<^verbatim>\<open>addSuccessor\<close> twice with the same action: the second call emits
  the warning \<^verbatim>\<open>Overwriting successor for action\<close> for that key, and then stores the second
  node under the key. The overwrite is reported, not silent.
\<close>

theorem duplicate_successor_warns:
  "case addSuccessor n a act s of
     (r1, n1, s1) \<Rightarrow>
       (case addSuccessor n1 b act s1 of
          (r2, n2, s2) \<Rightarrow>
            log s2 = log s1 @ [EvWarn (Overwriting (case act of None \<Rightarrow> ''default'' | Some k \<Rightarrow> k))]
            \<and> map_of (successors n2) (case act of None \<Rightarrow> ''default'' | Some k \<Rightarrow> k) = Some b)"
  by (simp add: addSuccessor_def warn_def Let_def map_of_obj_set get_successor_def)

theorem duplicate_successor_warns_witness:
  "case addSuccessor plain_node 1 (Some ''ok'') \<lparr>world = (), log = []\<rparr> of
     (r1, n1, s1) \<Rightarrow>
       (case addSuccessor n1 2 (Some ''ok'') s1 of
          (r2, n2, s2) \<Rightarrow>
            log s2 = log s1 @ [EvWarn (Overwriting ''ok'')]
            \<and> map_of (successors n2) ''ok'' = Some 2)"
  using duplicate_successor_warns [where n = plain_node and a = 1 and act = "Some ''ok''"
      and s = "\<lparr>world = (), log = []\<rparr>" and b = 2]
  by simp


section \<open>Choosing the next node\<close>




section \<open>The configuration handed to a node\<close>




section \<open>The heap\<close>

lemma length_store [simp]: "length (store h a n) = length h"
  by (simp add: store_def)

lemma take_store [simp]: "N \<le> fst a \<Longrightarrow> take N (store h a n) = take N h"
  by (simp add: store_def)

lemma take_take_le:
  assumes "take (length h) h1 = h" and "take (length h1) h2 = h1"
  shows "take (length h) h2 = h"
proof -
  have "length (take (length h) h1) = length h" using assms(1) by simp
  then have "length h \<le> length h1" by simp
  then have "take (length h) (take (length h1) h2) = take (length h) h2"
    by (simp add: min_def)
  with assms show ?thesis by simp
qed

section \<open>A flow cannot run\<close>

text \<open>
  The start node of the loop is a structured clone, a plain object: the first statement of
  the loop, \<^verbatim>\<open>curr.setParams(p)\<close>, throws, whatever the flow.
\<close>

lemma Flow__orch_throws:
  assumes "valid h (0, start f)"
  shows "Flow__orch (Suc k) f ps h s =
     Some (Inl (TypeError ''curr.setParams is not a function''), h @ [map plain_copy (h ! 0)], s)"
proof -
  let ?h1 = "h @ [map plain_copy (h ! 0)]"
  let ?a = "(length h, start f)"
  have v: "valid ?h1 ?a" using assms by (simp add: valid_def)
  have "deref ?h1 ?a = plain_copy (h ! 0 ! start f)"
    using assms by (simp add: deref_def valid_def)
  then have k: "kind (deref ?h1 ?a) = PlainK" by (simp add: plain_copy_def)
  show ?thesis
    using assms v k by (simp add: Flow__orch_def structuredClone_def)
qed

lemma two_clone: "[plain_copy first_node, plain_copy second_node] = two_clone"
  by (simp add: plain_copy_def first_node_def second_node_def two_clone_def)

lemma two_flow__run:
  "Flow__run 2 two_flow two_heap env0 =
     Some (Inl (TypeError ''curr.setParams is not a function''),
       [[first_node, second_node], two_clone], \<lparr>world = [], log = [EvPrep]\<rparr>)"
proof -
  have v: "valid two_heap (0, start two_flow)"
    by (simp add: valid_def two_heap_def two_flow_def)
  have "Flow__orch (Suc 1) two_flow None two_heap \<lparr>world = [], log = [EvPrep]\<rparr> =
     Some (Inl (TypeError ''curr.setParams is not a function''),
       two_heap @ [map plain_copy (two_heap ! 0)], \<lparr>world = [], log = [EvPrep]\<rparr>)"
    by (rule Flow__orch_throws[OF v])
  then show ?thesis
    by (simp add: Flow__run_def call_flow_prep_def two_flow_def default_flow_phases_def
        env0_def two_heap_def two_clone numeral_2_eq_2)
qed

text \<open>
  Claim C4 on the code: the two-node flow of the claim. The run calls the flow's \<^verbatim>\<open>prep\<close>
  and then throws the \<^verbatim>\<open>TypeError\<close> of \<^verbatim>\<open>curr.setParams\<close>: the log has no node run and no
  call of the flow's \<^verbatim>\<open>post\<close>, the shared context is untouched, and the result is the error.
\<close>

theorem two_node_flow_throws:
  "Flow_run 2 two_flow two_heap env0 =
     Some (Inl (TypeError ''curr.setParams is not a function''),
       [[first_node, second_node], two_clone], \<lparr>world = [], log = [EvPrep]\<rparr>)
   \<and> fst (post (methods first_node) (flow_params two_flow) VNull VNull []) = Inr (VStr ''success'')
   \<and> fst (post (methods second_node) (flow_params two_flow) VNull VNull []) = Inr (VStr ''done'')
   \<and> map_of (successors first_node) ''success'' = Some 1
   \<and> map_of (successors second_node) ''done'' = None"
  using two_flow__run
  by (simp add: Flow_run_def two_flow_def first_node_def second_node_def tracing_def
      default_phases_def)

text \<open>
  Claim C8 on the code: the batch flow over the two-node flow and three items. The run
  calls the flow's \<^verbatim>\<open>prep\<close> and throws the \<^verbatim>\<open>TypeError\<close> of \<^verbatim>\<open>curr.setParams\<close> in the
  orchestration of the first item: the log has no node run, where the claim has six.
\<close>

theorem batch_flow_throws:
  "BatchFlow__run 2
      (batch_flow [VObj [(''k'', VStr ''a'')], VObj [(''k'', VStr ''b'')], VObj [(''k'', VStr ''c'')]])
      two_heap env0 =
     Some (Inl (TypeError ''curr.setParams is not a function''),
       [[first_node, second_node], two_clone], \<lparr>world = [], log = [EvPrep]\<rparr>)"
proof -
  let ?f = "batch_flow [VObj [(''k'', VStr ''a'')], VObj [(''k'', VStr ''b'')], VObj [(''k'', VStr ''c'')]]"
  have v: "valid two_heap (0, start ?f)"
    by (simp add: valid_def two_heap_def two_flow_def batch_flow_def)
  have "Flow__orch (Suc 1) ?f (Some (spread2 (flow_params ?f) (spread (VObj [(''k'', VStr ''a'')]))))
      two_heap \<lparr>world = [], log = [EvPrep]\<rparr> =
     Some (Inl (TypeError ''curr.setParams is not a function''),
       two_heap @ [map plain_copy (two_heap ! 0)], \<lparr>world = [], log = [EvPrep]\<rparr>)"
    by (rule Flow__orch_throws[OF v])
  then show ?thesis
    by (simp add: BatchFlow__run_def call_flow_prep_def batch_flow_def two_flow_def
        default_flow_phases_def env0_def two_heap_def two_clone numeral_2_eq_2)
qed

section \<open>The registered graph is never written\<close>

lemma orch_loop_frame:
  "orch_loop k p cur h s = Some (r, h', s') \<Longrightarrow> (\<forall>a. cur = Some a \<longrightarrow> N \<le> fst a) \<Longrightarrow>
   N \<le> length h \<Longrightarrow> take N h' = take N h"
proof (induction k arbitrary: cur h s)
  case 0
  then show ?case by (cases cur) auto
next
  case (Suc k)
  show ?case
  proof (cases cur)
    case None
    with Suc.prems show ?thesis by auto
  next
    case (Some a)
    with Suc.prems have va: "valid h a" and Na: "N \<le> fst a"
      by (auto split: if_splits)
    show ?thesis
    proof (cases "kind (deref h a) = PlainK")
      case True
      with Suc.prems(1) Some va show ?thesis by simp
    next
      case False
      let ?h1 = "store h a (setParams (deref h a) p)"
      let ?s1 = "s\<lparr>log := log s @ [EvRun (snd a) (params (deref ?h1 a))]\<rparr>"
      obtain q n2 s2 where run: "BaseNode__run (deref ?h1 a) ?s1 = (q, n2, s2)"
        by (cases "BaseNode__run (deref ?h1 a) ?s1")
      let ?h2 = "store ?h1 a n2"
      have t2: "take N ?h2 = take N h" using Na by simp
      show ?thesis
      proof (cases q)
        case (Inl x)
        with Suc.prems(1) Some va False run have "h' = ?h2" by (simp add: Let_def)
        with t2 show ?thesis by simp
      next
        case (Inr c)
        obtain g s3 where gn: "getNextNode (deref ?h2 a) c s2 = (g, s3)"
          by (cases "getNextNode (deref ?h2 a) c s2")
        note unfold = Suc.prems(1) Some va False run Inr gn
        show ?thesis
        proof (cases g)
          case (Inl x)
          with unfold have "h' = ?h2" by (simp add: Let_def)
          with t2 show ?thesis by simp
        next
          case g: (Inr l)
          show ?thesis
          proof (cases l)
            case Missing
            with unfold g have "h' = ?h2" by (simp add: Let_def)
            with t2 show ?thesis by simp
          next
            case (Successor j)
            let ?h3 = "?h2 @ [map plain_copy (?h2 ! fst a)]"
            from unfold g Successor
            have rec: "orch_loop k p (Some (length h, j)) ?h3 s3 = Some (r, h', s')"
              by (simp add: Let_def structuredClone_def)
            have "take N h' = take N ?h3"
              using Suc.prems(3) by (intro Suc.IH[OF rec]) auto
            also have "\<dots> = take N h" using Na Suc.prems(3) by simp
            finally show ?thesis .
          next
            case (Inherited m)
            show ?thesis
            proof (cases "m = ''__proto__''")
              case True
              let ?h3 = "?h2 @ [[empty_object]]"
              from unfold g Inherited True
              have rec: "orch_loop k p (Some (length h, 0)) ?h3 s3 = Some (r, h', s')"
                by (simp add: Let_def)
              have "take N h' = take N ?h3"
                using Suc.prems(3) by (intro Suc.IH[OF rec]) auto
              also have "\<dots> = take N h" using Na Suc.prems(3) by simp
              finally show ?thesis .
            next
              case False
              with unfold g Inherited have "h' = ?h2" by (simp add: Let_def)
              with t2 show ?thesis by simp
            qed
          qed
        qed
      qed
    qed
  qed
qed

lemma Flow__orch_frame:
  assumes "Flow__orch k f ps h s = Some (r, h', s')"
  shows "take (length h) h' = h"
proof -
  let ?p = "case ps of Some p \<Rightarrow> p | None \<Rightarrow> flow_params f"
  from assms
  have ol: "orch_loop k ?p (Some (length h, start f)) (h @ [map plain_copy (h ! 0)]) s
      = Some (r, h', s')"
    by (simp add: Flow__orch_def structuredClone_def split: if_splits)
  have "take (length h) h' = take (length h) (h @ [map plain_copy (h ! 0)])"
    by (rule orch_loop_frame[OF ol]) auto
  then show ?thesis by simp
qed

lemma keeps_graphs_prep:
  assumes "keeps_graphs f" and "call_flow_prep f h s = (q, h1, s1)"
  shows "take (length h) h1 = h"
proof -
  from assms(2) have "h1 = fst (snd (flow_prep (flow_methods f) (flow_params f) h (world s)))"
    by (auto simp: call_flow_prep_def split: prod.splits)
  with assms(1) show ?thesis by (simp add: keeps_graphs_def)
qed

lemma keeps_graphs_post:
  assumes "keeps_graphs f" and "call_flow_post f p e h s = (q, h1, s1)"
  shows "take (length h) h1 = h"
proof -
  from assms(2) have "h1 = fst (snd (flow_post (flow_methods f) (flow_params f) p e h (world s)))"
    by (auto simp: call_flow_post_def split: prod.splits)
  with assms(1) show ?thesis by (simp add: keeps_graphs_def)
qed

lemma Flow__run_frame:
  assumes "keeps_graphs f" and "Flow__run k f h s = Some (r, h', s')"
  shows "take (length h) h' = h"
proof -
  obtain q h1 s1 where cp: "call_flow_prep f h s = (q, h1, s1)"
    by (cases "call_flow_prep f h s")
  note t1 = keeps_graphs_prep[OF assms(1) cp]
  show ?thesis
  proof (cases q)
    case (Inl x)
    with cp assms(2) have "h' = h1" by (simp add: Flow__run_def)
    with t1 show ?thesis by simp
  next
    case (Inr pr)
    with cp assms(2) obtain u h2 s2 where
      orch: "Flow__orch k f None h1 s1 = Some (u, h2, s2)"
      by (auto simp: Flow__run_def split: option.splits)
    have t2: "take (length h) h2 = h"
      using t1 Flow__orch_frame[OF orch] by (rule take_take_le)
    show ?thesis
    proof (cases u)
      case (Inl x)
      with cp Inr orch assms(2) have "h' = h2" by (simp add: Flow__run_def)
      with t2 show ?thesis by simp
    next
      case u: (Inr un)
      obtain q3 h3 s3 where po: "call_flow_post f pr VNull h2 s2 = (q3, h3, s3)"
        by (cases "call_flow_post f pr VNull h2 s2")
      from cp Inr orch u po assms(2) have "h' = h3" by (simp add: Flow__run_def)
      moreover have "take (length h) h3 = h"
        using t2 keeps_graphs_post[OF assms(1) po] by (rule take_take_le)
      ultimately show ?thesis by simp
    qed
  qed
qed

lemma batch_forEach_frame:
  "batch_forEach k f items h s = Some (r, h', s') \<Longrightarrow> take (length h) h' = h"
proof (induction items arbitrary: h s)
  case Nil
  then show ?case by simp
next
  case (Cons bp bps)
  from Cons.prems obtain u h1 s1 where
    orch: "Flow__orch k f (Some (spread2 (flow_params f) (spread bp))) h s = Some (u, h1, s1)"
    by (auto split: option.splits)
  note t1 = Flow__orch_frame[OF orch]
  show ?case
  proof (cases u)
    case (Inl x)
    with orch Cons.prems have "h' = h1" by simp
    with t1 show ?thesis by simp
  next
    case (Inr un)
    with orch Cons.prems have rec: "batch_forEach k f bps h1 s1 = Some (r, h', s')" by simp
    from t1 Cons.IH[OF rec] show ?thesis by (rule take_take_le)
  qed
qed

lemma BatchFlow__run_frame:
  assumes "keeps_graphs f" and "BatchFlow__run k f h s = Some (r, h', s')"
  shows "take (length h) h' = h"
proof -
  obtain q h1 s1 where cp: "call_flow_prep f h s = (q, h1, s1)"
    by (cases "call_flow_prep f h s")
  note t1 = keeps_graphs_prep[OF assms(1) cp]
  show ?thesis
  proof (cases q)
    case (Inl x)
    with cp assms(2) have "h' = h1" by (simp add: BatchFlow__run_def)
    with t1 show ?thesis by simp
  next
    case (Inr v)
    show ?thesis
    proof (cases "if truthy v then v else VArr []")
      case (VArr items)
      with cp Inr assms(2) obtain u h2 s2 where
        fe: "batch_forEach k f items h1 s1 = Some (u, h2, s2)"
        by (auto simp: BatchFlow__run_def split: option.splits)
      have t2: "take (length h) h2 = h"
        using t1 batch_forEach_frame[OF fe] by (rule take_take_le)
      show ?thesis
      proof (cases u)
        case (Inl x)
        with cp Inr VArr fe assms(2) have "h' = h2" by (simp add: BatchFlow__run_def)
        with t2 show ?thesis by simp
      next
        case u: (Inr un)
        obtain q3 h3 s3 where
          po: "call_flow_post f (if truthy v then v else VArr []) VNull h2 s2 = (q3, h3, s3)"
          by (cases "call_flow_post f (if truthy v then v else VArr []) VNull h2 s2")
        from cp Inr VArr fe u po assms(2) have "h' = h3" by (simp add: BatchFlow__run_def)
        moreover have "take (length h) h3 = h"
          using t2 keeps_graphs_post[OF assms(1) po] by (rule take_take_le)
        ultimately show ?thesis by simp
      qed
    qed (use cp Inr assms(2) t1 in \<open>auto simp: BatchFlow__run_def\<close>)
  qed
qed

lemma valid_grown:
  assumes "take (length h) h1 = h" and "valid h a"
  shows "valid h1 a"
proof -
  from assms(2) have lt: "fst a < length h" by (simp add: valid_def)
  have "length (take (length h) h1) = length h" using assms(1) by simp
  then have le: "length h \<le> length h1" by simp
  from lt have "take (length h) h1 ! fst a = h1 ! fst a" by simp
  with assms(1) have "h1 ! fst a = h ! fst a" by simp
  with assms(2) lt le show ?thesis by (simp add: valid_def)
qed

lemma Flow__run_returns:
  assumes "keeps_graphs f" and "valid h (0, start f)"
  shows "\<exists>y. Flow__run (Suc k) f h s = Some y"
proof -
  obtain q h1 s1 where cp: "call_flow_prep f h s = (q, h1, s1)"
    by (cases "call_flow_prep f h s")
  have v: "valid h1 (0, start f)"
    using keeps_graphs_prep[OF assms(1) cp] assms(2) by (rule valid_grown)
  show ?thesis
  proof (cases q)
    case (Inl x)
    with cp show ?thesis by (simp add: Flow__run_def)
  next
    case (Inr pr)
    with cp Flow__orch_throws[OF v, of k None s1] show ?thesis
      by (simp add: Flow__run_def)
  qed
qed

lemma BatchFlow__run_returns:
  assumes "keeps_graphs f" and "valid h (0, start f)"
  shows "\<exists>y. BatchFlow__run (Suc k) f h s = Some y"
proof -
  obtain q h1 s1 where cp: "call_flow_prep f h s = (q, h1, s1)"
    by (cases "call_flow_prep f h s")
  have v: "valid h1 (0, start f)"
    using keeps_graphs_prep[OF assms(1) cp] assms(2) by (rule valid_grown)
  show ?thesis
  proof (cases q)
    case (Inl x)
    with cp show ?thesis by (simp add: BatchFlow__run_def)
  next
    case (Inr pr)
    show ?thesis
    proof (cases "if truthy pr then pr else VArr []")
      case (VArr items)
      show ?thesis
      proof (cases items)
        case Nil
        with cp Inr VArr show ?thesis
          by (cases "call_flow_post f (VArr []) VNull h1 s1") (simp add: BatchFlow__run_def)
      next
        case (Cons bp bps)
        with cp Inr VArr
          Flow__orch_throws[OF v, of k "Some (spread2 (flow_params f) (spread bp))" s1]
        show ?thesis by (simp add: BatchFlow__run_def)
      qed
    qed (use cp Inr in \<open>simp_all add: BatchFlow__run_def\<close>)
  qed
qed

text \<open>
  Claim C10. A run of a flow or of a batch flow whose own \<^verbatim>\<open>prep\<close> and \<^verbatim>\<open>post\<close> leave the
  object graphs alone leaves every object graph that existed before the run as it was, the
  registered graph among them: the parameters and the successor table of every registered
  node are the same after the run. All the orchestrator does to the heap is to allocate
  structured clones; what it writes, it writes into a clone. And the run of a flow over a
  registered start node is over after one round of the loop, with a value or an error.
\<close>

theorem registered_graph_unchanged:
  assumes "keeps_graphs f"
  shows "(Flow__run k f h s = Some (r, h', s') \<or> BatchFlow__run k f h s = Some (r, h', s') \<longrightarrow>
            take (length h) h' = h
            \<and> (\<forall>g<length h. \<forall>i. params (deref h' (g, i)) = params (deref h (g, i))
                  \<and> successors (deref h' (g, i)) = successors (deref h (g, i))))
       \<and> (valid h (0, start f) \<longrightarrow>
            (\<exists>y. Flow__run (Suc j) f h s = Some y) \<and> (\<exists>y. BatchFlow__run (Suc j) f h s = Some y))"
proof (intro conjI impI)
  assume run: "Flow__run k f h s = Some (r, h', s') \<or> BatchFlow__run k f h s = Some (r, h', s')"
  with assms show t: "take (length h) h' = h"
    using Flow__run_frame BatchFlow__run_frame by blast
  have "h' ! g = h ! g" if "g < length h" for g
  proof -
    from that have "take (length h) h' ! g = h' ! g" by simp
    with t show ?thesis by simp
  qed
  then show "\<forall>g<length h. \<forall>i. params (deref h' (g, i)) = params (deref h (g, i))
                  \<and> successors (deref h' (g, i)) = successors (deref h (g, i))"
    by (simp add: deref_def)
next
  assume "valid h (0, start f)"
  with assms show "\<exists>y. Flow__run (Suc j) f h s = Some y" by (rule Flow__run_returns)
next
  assume "valid h (0, start f)"
  with assms show "\<exists>y. BatchFlow__run (Suc j) f h s = Some y" by (rule BatchFlow__run_returns)
qed

lemma keeps_graphs_two_flow: "keeps_graphs two_flow"
  by (simp add: keeps_graphs_def two_flow_def default_flow_phases_def)

lemma valid_two: "valid two_heap (0, start two_flow)"
  by (simp add: valid_def two_heap_def two_flow_def)

theorem registered_graph_unchanged_witness:
  "\<exists>r h' s'. Flow__run 2 two_flow two_heap env0 = Some (r, h', s')
     \<and> take 1 h' = two_heap
     \<and> params (deref h' (0, 0)) = [(''k'', VStr ''own'')]
     \<and> successors (deref h' (0, 0)) = [(''success'', 1)]
     \<and> (\<exists>y. BatchFlow__run 1 two_flow two_heap env0 = Some y)"
proof -
  note run = two_flow__run
  note inst = registered_graph_unchanged[OF keeps_graphs_two_flow,
      where k = 2 and j = 0 and h = two_heap and s = env0]
  from inst run
  have "take (length two_heap) [[first_node, second_node], two_clone] = two_heap" by blast
  moreover from inst valid_two have "\<exists>y. BatchFlow__run 1 two_flow two_heap env0 = Some y"
    by simp
  ultimately show ?thesis
    unfolding run by (simp add: two_heap_def deref_def first_node_def)
qed

section \<open>Parallel batches keep the input order\<close>

declare AsyncNode_exec_loop.simps [simp del]

lemma Promise_all_loop_fills:
  assumes "order \<noteq> []" and "distinct order" and "set order \<subseteq> {..<length outs}"
    and "length vals = length outs"
    and "\<forall>i<length outs. outs ! i = Inr (g i)"
    and "\<forall>i<length outs. i \<notin> set order \<longrightarrow> vals ! i = g i"
  shows "Promise_all_loop outs order vals (length order) = Some (Inr (VArr (map g [0..<length outs])))"
  using assms
proof (induction order arbitrary: vals)
  case Nil
  then show ?case by simp
next
  case (Cons i rest)
  then have i: "i < length outs" and oi: "outs ! i = Inr (g i)" by auto
  show ?case
  proof (cases "rest = []")
    case True
    have "vals[i := g i] = map g [0..<length outs]"
    proof (rule nth_equalityI)
      show "length (vals[i := g i]) = length (map g [0..<length outs])"
        using Cons.prems(4) by simp
    next
      fix k assume "k < length (vals[i := g i])"
      then have k: "k < length outs" using Cons.prems(4) by simp
      show "vals[i := g i] ! k = map g [0..<length outs] ! k"
      proof (cases "k = i")
        case True
        with k Cons.prems(4) show ?thesis by simp
      next
        case False
        with k \<open>rest = []\<close> Cons.prems(6) have "vals ! k = g k" by simp
        with False k show ?thesis by simp
      qed
    qed
    with True i oi show ?thesis by simp
  next
    case False
    have "Promise_all_loop outs rest (vals[i := g i]) (length rest)
        = Some (Inr (VArr (map g [0..<length outs])))"
    proof (rule Cons.IH[OF False])
      show "distinct rest" using Cons.prems(2) by simp
      show "set rest \<subseteq> {..<length outs}" using Cons.prems(3) by simp
      show "length (vals[i := g i]) = length outs" using Cons.prems(4) by simp
      show "\<forall>i<length outs. outs ! i = Inr (g i)" using Cons.prems(5) .
      show "\<forall>k<length outs. k \<notin> set rest \<longrightarrow> vals[i := g i] ! k = g k"
      proof (intro allI impI)
        fix k assume k: "k < length outs" and nk: "k \<notin> set rest"
        show "vals[i := g i] ! k = g k"
        proof (cases "k = i")
          case True
          with k Cons.prems(4) show ?thesis by simp
        next
          case False
          with k nk Cons.prems(6) have "vals ! k = g k" by simp
          with False show ?thesis by simp
        qed
      qed
    qed
    with False i oi show ?thesis by (cases rest) simp_all
  qed
qed

text \<open>
  Claim C9. \<^verbatim>\<open>AsyncParallelBatchNode._exec\<close> on the items \<open>xs\<close>, when every task fulfils
  with \<open>f\<close> of its item: whatever the order in which the tasks settle, the result is
  \<open>map f xs\<close>, in the order of the input.
\<close>

theorem parallel_batch_keeps_input_order:
  assumes "distinct order" and "set order = {..<length items}"
    and "\<forall>x\<in>set items. AsyncNode__exec n x = Inr (f x)"
  shows "AsyncParallelBatchNode__exec n (VArr items) order = Some (Inr (VArr (map f items)))"
proof (cases "items = []")
  case True
  then show ?thesis by (simp add: AsyncParallelBatchNode__exec_def Promise_all_def)
next
  case False
  define outs where "outs = map (AsyncNode__exec n) items"
  define g where "g = (\<lambda>i. f (items ! i))"
  have lo: "length outs = length items" by (simp add: outs_def)
  have "card (set order) = card {..<length items}" by (simp only: assms(2))
  then have "card (set order) = length items" by (simp only: card_lessThan)
  with assms(1) have len: "length order = length items" by (simp only: distinct_card)
  with False have ne: "order \<noteq> []" by (cases order) simp_all
  have sub: "set order \<subseteq> {..<length outs}" by (simp only: assms(2) lo subset_refl)
  have lv: "length (replicate (length outs) VUndefined) = length outs" by simp
  have og: "\<forall>i<length outs. outs ! i = Inr (g i)"
    using assms(3) lo by (simp add: outs_def g_def)
  have vg: "\<forall>i<length outs. i \<notin> set order \<longrightarrow> replicate (length outs) VUndefined ! i = g i"
    by (simp only: assms(2) lo lessThan_iff) blast
  have "Promise_all_loop outs order (replicate (length outs) VUndefined) (length order)
      = Some (Inr (VArr (map g [0..<length outs])))"
    using ne assms(1) sub lv og vg by (rule Promise_all_loop_fills)
  moreover have "map g [0..<length outs] = map f items"
    unfolding g_def lo by (rule nth_equalityI) simp_all
  moreover have "outs \<noteq> []" using False by (simp add: outs_def)
  ultimately have "Promise_all outs order = Some (Inr (VArr (map f items)))"
    using len lo by (simp add: Promise_all_def)
  then show ?thesis
    by (simp add: AsyncParallelBatchNode__exec_def outs_def)
qed


lemma doubling_exec: "AsyncNode__exec doubling (VStr x) = Inr (double (VStr x))"
  by (simp add: AsyncNode__exec_def AsyncNode_exec_loop.simps doubling_def double_def
      default_async_phases_def)

theorem parallel_batch_keeps_input_order_witness:
  "AsyncParallelBatchNode__exec doubling (VArr [VStr ''x'', VStr ''y'', VStr ''z'']) [1, 2, 0]
     = Some (Inr (VArr [VStr ''xx'', VStr ''yy'', VStr ''zz'']))"
proof -
  have d: "distinct [1, 2, 0 :: nat]" by simp
  have "{..<length [VStr ''x'', VStr ''y'', VStr ''z'']} = {..<Suc (Suc (Suc 0))}" by simp
  also have "\<dots> = {Suc (Suc 0), Suc 0, 0}" by (simp only: lessThan_Suc lessThan_0)
  also have "\<dots> = set [1, 2, 0 :: nat]" by (simp add: numeral_2_eq_2 insert_commute)
  finally have s: "set [1, 2, 0 :: nat] = {..<length [VStr ''x'', VStr ''y'', VStr ''z'']}"
    by (rule sym)
  have e: "\<forall>v\<in>set [VStr ''x'', VStr ''y'', VStr ''z'']. AsyncNode__exec doubling v = Inr (double v)"
    by (simp add: doubling_exec)
  from parallel_batch_keeps_input_order [OF d s e]
  show ?thesis by (simp add: double_def)
qed

end
